theory Spec2Isabelle
  imports Complex_Main "HOL-Library.AList" "HOL-Library.Char_ord" "HOL-Library.List_Lexorder"
begin

section \<open>Python values shared by both modules\<close>

text \<open>
  Exceptions are values: a function that can raise returns \<open>error + 'a\<close>,
  with \<open>Inl\<close> carrying the exception.
\<close>

datatype error = KeyError string | ValueError string | TypeError string

text \<open>
  A Python \<open>dict\<close> keeps its keys in insertion order; assigning to a key that is
  already present overwrites the value in place, assigning to a new key appends it.
  This is \<^const>\<open>AList.update\<close> on an association list. \<open>d[k]\<close> raises
  \<open>KeyError\<close> on a missing key.
\<close>

type_synonym ('k, 'v) pydict = "('k \<times> 'v) list"

definition getitem :: "(string, 'v) pydict \<Rightarrow> string \<Rightarrow> error + 'v" where
  "getitem d k = (case map_of d k of None \<Rightarrow> Inl (KeyError k) | Some v \<Rightarrow> Inr v)"

text \<open>\<open>dict(zip(ks, vs))\<close>: the pairs are assigned from left to right.\<close>

definition dict_of_pairs :: "('k \<times> 'v) list \<Rightarrow> ('k, 'v) pydict" where
  "dict_of_pairs ps = foldl (\<lambda>d (k, v). AList.update k v d) [] ps"

text \<open>\<open>int(x)\<close> on a number truncates towards zero.\<close>

definition py_int :: "rat \<Rightarrow> int" where
  "py_int x = (if x < 0 then \<lceil>x\<rceil> else \<lfloor>x\<rfloor>)"

section \<open>search.py: the relevance filter\<close>

subsection \<open>The pandas frame\<close>

text \<open>
  \<open>pd.DataFrame(resultdict)\<close> is built from a list of row dictionaries that all have
  the keys \<open>doc_name\<close> and \<open>text\<close>. The frame has these two columns when the list
  has a row, and no column at all when the list is empty. \<open>df[c]\<close> raises
  \<open>KeyError\<close> when the frame has no column \<open>c\<close>.
\<close>

record frame =
  columns :: "string list"
  rws :: "(string \<times> string) list"

definition DataFrame :: "(string \<times> string) list \<Rightarrow> frame" where
  "DataFrame resultdict =
     \<lparr>columns = (if resultdict = [] then [] else [''doc_name'', ''text'']),
      rws = resultdict\<rparr>"

text \<open>
  \<open>drop_duplicates()\<close> keeps the first occurrence of every row, in order.
  \<^const>\<open>remdups\<close> keeps the last one, hence the two reversals.
\<close>

definition keep_first :: "'a list \<Rightarrow> 'a list" where
  "keep_first xs = rev (remdups (rev xs))"

definition drop_duplicates :: "frame \<Rightarrow> frame" where
  "drop_duplicates df = df\<lparr>rws := keep_first (rws df)\<rparr>"

definition column :: "frame \<Rightarrow> string \<Rightarrow> error + string list" where
  "column df c =
     (if c \<notin> set (columns df) then Inl (KeyError c)
      else if c = ''doc_name'' then Inr (map fst (rws df))
      else Inr (map snd (rws df)))"

text \<open>\<open>df.loc[df['doc_name'].isin(vals)]\<close>: the column is read first, then the rows are
  filtered; the columns stay.\<close>

definition loc_isin :: "frame \<Rightarrow> string list \<Rightarrow> error + frame" where
  "loc_isin df vals =
     (case column df ''doc_name'' of
        Inl e \<Rightarrow> Inl e
      | Inr _ \<Rightarrow> Inr (df\<lparr>rws := filter (\<lambda>r. fst r \<in> set vals) (rws df)\<rparr>))"

subsection \<open>The loop over the hits\<close>

text \<open>
  A hit is the \<open>properties\<close> dictionary of a returned object. The loop reads
  \<open>doc_name\<close> and \<open>text\<close> of every hit (a missing key raises), appends the row
  to \<open>resultdict\<close> and counts the hit in \<open>hitsdict\<close>.
\<close>

type_synonym hit = "(string, string) pydict"

definition count_hit :: "(string, int) pydict \<Rightarrow> string \<Rightarrow> (string, int) pydict" where
  "count_hit hitsdict k =
     (case map_of hitsdict k of
        Some c \<Rightarrow> AList.update k (c + 1) hitsdict
      | None \<Rightarrow> AList.update k 1 hitsdict)"

fun collect ::
  "hit list \<Rightarrow> (string \<times> string) list \<Rightarrow> (string, int) pydict
     \<Rightarrow> error + ((string \<times> string) list \<times> (string, int) pydict)" where
  "collect [] resultdict hitsdict = Inr (resultdict, hitsdict)"
| "collect (obj # objs) resultdict hitsdict =
     (case getitem obj ''doc_name'' of
        Inl e \<Rightarrow> Inl e
      | Inr doc_name \<Rightarrow>
          (case getitem obj ''text'' of
             Inl e \<Rightarrow> Inl e
           | Inr text \<Rightarrow>
               collect objs (resultdict @ [(doc_name, text)]) (count_hit hitsdict doc_name)))"

subsection \<open>The filter\<close>

text \<open>
  \<open>np.quantile\<close> is a library function that works in binary floating point; the
  filter takes it as the parameter \<open>quantile\<close>. Only its result, a number, is used:
  it is truncated by \<open>int\<close> and compared with every count.
\<close>

definition filterresults ::
  "(int list \<Rightarrow> rat \<Rightarrow> rat) \<Rightarrow> hit list \<Rightarrow> error + (string, string) pydict" where
  "filterresults quantile objects =
     (case collect objects [] [] of
        Inl e \<Rightarrow> Inl e
      | Inr (resultdict, hitsdict) \<Rightarrow>
          (let res_df = drop_duplicates (DataFrame resultdict);
               filtered =
                 (if length hitsdict > 0 then
                    (let high_values =
                           map fst (filter (\<lambda>(key, value).
                              value \<ge> py_int (quantile (map snd hitsdict) (9 / 10))) hitsdict)
                     in loc_isin res_df high_values)
                  else Inr res_df)
           in case filtered of
                Inl e \<Rightarrow> Inl e
              | Inr res_df \<Rightarrow>
                  (case column res_df ''doc_name'' of
                     Inl e \<Rightarrow> Inl e
                   | Inr names \<Rightarrow>
                       (case column res_df ''text'' of
                          Inl e \<Rightarrow> Inl e
                        | Inr texts \<Rightarrow> Inr (dict_of_pairs (zip names texts))))))"

text \<open>
  The default method of \<open>np.quantile\<close> is linear interpolation between the two
  order statistics around the position \<open>q * (n - 1)\<close>. This is the method in exact
  arithmetic (the empty list is never passed to it).
\<close>

definition quantile_linear :: "int list \<Rightarrow> rat \<Rightarrow> rat" where
  "quantile_linear vals q =
     (if vals = [] then 0
      else
        (let s = sort vals;
             n = length s;
             pos = of_nat (n - 1) * q;
             j = nat \<lfloor>pos\<rfloor>;
             gamma = pos - of_int \<lfloor>pos\<rfloor>;
             a = s ! j;
             b = s ! (min (j + 1) (n - 1))
         in of_int a + of_int (b - a) * gamma))"

subsection \<open>What the claims speak about\<close>

text \<open>A hit is well formed when it has both keys.\<close>

definition well_formed :: "hit \<Rightarrow> bool" where
  "well_formed h \<longleftrightarrow> map_of h ''doc_name'' \<noteq> None \<and> map_of h ''text'' \<noteq> None"

definition row_of :: "hit \<Rightarrow> string \<times> string" where
  "row_of h = (the (map_of h ''doc_name''), the (map_of h ''text''))"

definition doc_names :: "hit list \<Rightarrow> string list" where
  "doc_names hits = map (fst \<circ> row_of) hits"

text \<open>The hit-count of a document: the number of hits that name it.\<close>

definition tally :: "'a list \<Rightarrow> 'a \<Rightarrow> int" where
  "tally ns d = int (length (filter (\<lambda>n. n = d) ns))"

definition hit_count :: "hit list \<Rightarrow> string \<Rightarrow> int" where
  "hit_count hits d = tally (doc_names hits) d"

text \<open>The distinct documents in order of first appearance, and their counts.\<close>

definition documents :: "hit list \<Rightarrow> string list" where
  "documents hits = keep_first (doc_names hits)"

definition hit_counts :: "hit list \<Rightarrow> int list" where
  "hit_counts hits = map (hit_count hits) (documents hits)"

text \<open>The distinct chunk texts that matched a document, in order of first appearance.\<close>

definition texts_of :: "hit list \<Rightarrow> string \<Rightarrow> string list" where
  "texts_of hits d = keep_first (map snd (filter (\<lambda>r. fst r = d) (map row_of hits)))"


subsection \<open>Sample hit lists\<close>

definition mk_hit :: "string \<Rightarrow> string \<Rightarrow> hit" where
  "mk_hit d t = [(''doc_name'', d), (''text'', t)]"

definition hits_AAB :: "hit list" where
  "hits_AAB = [mk_hit ''A'' ''t1'', mk_hit ''A'' ''t2'', mk_hit ''B'' ''t3'']"

definition hits_AB :: "hit list" where
  "hits_AB = [mk_hit ''A'' ''t1'', mk_hit ''B'' ''t2'']"

definition hits_AAA :: "hit list" where
  "hits_AAA = [mk_hit ''A'' ''t1'', mk_hit ''A'' ''t2'', mk_hit ''A'' ''t1'']"




section \<open>ingestion_process.py: strings\<close>

subsection \<open>Characters\<close>

text \<open>
  A text is a list of 8-bit characters, each one a code point below 256. The classes are
  those of Python on these code points: \<open>\d\<close> is the ten ASCII digits, \<open>\s\<close>,
  \<open>str.isspace\<close>, \<open>str.strip\<close> and \<open>str.split\<close> share one set of white space, and
  \<open>\w\<close> is the alphanumeric characters and the underscore.
\<close>

definition code :: "char \<Rightarrow> nat" where
  "code c = of_char c"

definition in_range :: "char \<Rightarrow> char \<Rightarrow> char \<Rightarrow> bool" where
  "in_range lo hi c \<longleftrightarrow> code lo \<le> code c \<and> code c \<le> code hi"

definition is_digit :: "char \<Rightarrow> bool" where
  "is_digit c \<longleftrightarrow> in_range CHR ''0'' CHR ''9'' c"

definition is_alpha :: "char \<Rightarrow> bool" where
  "is_alpha c \<longleftrightarrow> in_range CHR ''a'' CHR ''z'' c \<or> in_range CHR ''A'' CHR ''Z'' c"

definition is_space :: "char \<Rightarrow> bool" where
  "is_space c \<longleftrightarrow>
     (9 \<le> code c \<and> code c \<le> 13) \<or> (28 \<le> code c \<and> code c \<le> 32)
     \<or> code c = 133 \<or> code c = 160"

definition is_word :: "char \<Rightarrow> bool" where
  "is_word c \<longleftrightarrow>
     is_digit c \<or> is_alpha c \<or> c = CHR ''_''
     \<or> code c \<in> {170, 178, 179, 181, 185, 186, 188, 189, 190}
     \<or> (192 \<le> code c \<and> code c \<noteq> 215 \<and> code c \<noteq> 247)"

text \<open>\<open>str.lower\<close>: an upper-case letter moves up by 32, which sets bit 5 of its code.\<close>

definition is_upper :: "char \<Rightarrow> bool" where
  "is_upper c \<longleftrightarrow>
     in_range CHR ''A'' CHR ''Z'' c \<or> (192 \<le> code c \<and> code c \<le> 222 \<and> code c \<noteq> 215)"

definition lower_char :: "char \<Rightarrow> char" where
  "lower_char c =
     (if is_upper c
      then (case c of Char b0 b1 b2 b3 b4 b5 b6 b7 \<Rightarrow> Char b0 b1 b2 b3 b4 True b6 b7)
      else c)"

definition lower :: "string \<Rightarrow> string" where
  "lower s = map lower_char s"

text \<open>\<open>s.strip()\<close>, \<open>s.split()\<close>, \<open>sep.join(xs)\<close> and \<open>s.replace(old, new)\<close>.\<close>

definition strip :: "string \<Rightarrow> string" where
  "strip s = rev (dropWhile is_space (rev (dropWhile is_space s)))"

fun split_from :: "string \<Rightarrow> string \<Rightarrow> string list" where
  "split_from cur [] = (if cur = [] then [] else [rev cur])"
| "split_from cur (c # cs) =
     (if is_space c then (if cur = [] then split_from [] cs else rev cur # split_from [] cs)
      else split_from (c # cur) cs)"

definition split_ws :: "string \<Rightarrow> string list" where
  "split_ws s = split_from [] s"

fun join :: "string \<Rightarrow> string list \<Rightarrow> string" where
  "join sep [] = []"
| "join sep [x] = x"
| "join sep (x # y # ys) = x @ sep @ join sep (y # ys)"

function replace :: "string \<Rightarrow> string \<Rightarrow> string \<Rightarrow> string" where
  "replace old new s =
     (if s = [] then []
      else if old \<noteq> [] \<and> take (length old) s = old
           then new @ replace old new (drop (length old) s)
      else hd s # replace old new (tl s))"
  by pat_completeness auto
termination
  by (relation "measure (\<lambda>(old, new, s). length s)") auto

declare replace.simps [simp del]

subsection \<open>Regular expressions\<close>

text \<open>
  A backtracking matcher for the constructs that the patterns of the program use. A
  state is the text before the position (reversed), the text from the position on, and
  the groups captured so far. \<open>rx_match r st\<close> lists the states in which a match of
  \<open>r\<close> from \<open>st\<close> can end, in the order in which backtracking tries them: the head is
  the match that \<open>re\<close> reports. \<open>Rep r lo hi\<close> is the greedy \<open>r{lo,hi}\<close>; without upper bound
  the length of the remaining text bounds the number of rounds, every repeated pattern of
  the program consuming at least one character per round.
\<close>

type_synonym groups = "(nat \<times> string) list"
type_synonym mstate = "string \<times> string \<times> groups"

datatype rx =
    Chr "char \<Rightarrow> bool"
  | Seq rx rx
  | Alt rx rx
  | Rep rx nat "nat option"
  | Grp nat rx
  | WordB
  | Behind "char \<Rightarrow> bool"
  | Eps

fun rep_match :: "(mstate \<Rightarrow> mstate list) \<Rightarrow> nat \<Rightarrow> nat \<Rightarrow> mstate \<Rightarrow> mstate list" where
  "rep_match f lo 0 st = (if lo = 0 then [st] else [])"
| "rep_match f lo (Suc k) st =
     concat (map (rep_match f (lo - 1) k) (f st)) @ (if lo = 0 then [st] else [])"

definition at_boundary :: "string \<Rightarrow> string \<Rightarrow> bool" where
  "at_boundary pre rest \<longleftrightarrow>
     (case pre of [] \<Rightarrow> False | c # _ \<Rightarrow> is_word c) \<noteq>
     (case rest of [] \<Rightarrow> False | c # _ \<Rightarrow> is_word c)"

primrec rx_match :: "rx \<Rightarrow> mstate \<Rightarrow> mstate list" where
  "rx_match (Chr P) st =
     (case st of (pre, rest, gs) \<Rightarrow>
        (case rest of [] \<Rightarrow> [] | c # cs \<Rightarrow> if P c then [(c # pre, cs, gs)] else []))"
| "rx_match (Seq a b) st = concat (map (rx_match b) (rx_match a st))"
| "rx_match (Alt a b) st = rx_match a st @ rx_match b st"
| "rx_match (Rep r lo hi) st =
     rep_match (rx_match r) lo
       (case hi of Some h \<Rightarrow> h | None \<Rightarrow> length (fst (snd st))) st"
| "rx_match (Grp n r) st =
     map (\<lambda>(pre', rest', gs').
            (pre', rest', (n, rev (take (length pre' - length (fst st)) pre')) # gs'))
         (rx_match r st)"
| "rx_match WordB st =
     (case st of (pre, rest, gs) \<Rightarrow> if at_boundary pre rest then [st] else [])"
| "rx_match (Behind P) st =
     (case st of (pre, rest, gs) \<Rightarrow>
        (case pre of [] \<Rightarrow> [] | c # _ \<Rightarrow> if P c then [st] else []))"
| "rx_match Eps st = [st]"

text \<open>
  Scanning a text from left to right, as \<open>finditer\<close>, \<open>findall\<close>, \<open>sub\<close> and \<open>split\<close>
  do: at every position the pattern is tried; a match is recorded with its text and its
  groups and the scan goes on behind it, otherwise the character is passed over. (No
  pattern of the program matches the empty string; for such a match the scan moves on by
  one character.)
\<close>

datatype piece = Lit char | Hit string groups

function pieces :: "rx \<Rightarrow> string \<Rightarrow> string \<Rightarrow> piece list" where
  "pieces r pre rest =
     (case rx_match r (pre, rest, []) of
        [] \<Rightarrow> (case rest of [] \<Rightarrow> [] | c # cs \<Rightarrow> Lit c # pieces r (c # pre) cs)
      | (pre', rest', gs) # _ \<Rightarrow>
          if length rest' < length rest
          then Hit (rev (take (length pre' - length pre) pre')) gs # pieces r pre' rest'
          else (case rest of
                  [] \<Rightarrow> [Hit [] gs]
                | c # cs \<Rightarrow> Hit [] gs # Lit c # pieces r (c # pre) cs))"
  by pat_completeness auto
termination
  by (relation "measure (\<lambda>(r, pre, rest). length rest)") auto

declare pieces.simps [simp del]

definition findall :: "rx \<Rightarrow> string \<Rightarrow> string list" where
  "findall r s = concat (map (\<lambda>p. case p of Lit c \<Rightarrow> [] | Hit m gs \<Rightarrow> [m]) (pieces r [] s))"

definition finditer :: "rx \<Rightarrow> string \<Rightarrow> groups list" where
  "finditer r s = concat (map (\<lambda>p. case p of Lit c \<Rightarrow> [] | Hit m gs \<Rightarrow> [gs]) (pieces r [] s))"

definition group :: "groups \<Rightarrow> nat \<Rightarrow> string option" where
  "group gs n = map_of gs n"

definition re_sub :: "rx \<Rightarrow> (groups \<Rightarrow> string) \<Rightarrow> string \<Rightarrow> string" where
  "re_sub r repl s =
     concat (map (\<lambda>p. case p of Lit c \<Rightarrow> [c] | Hit m gs \<Rightarrow> repl gs) (pieces r [] s))"

fun split_pieces :: "string \<Rightarrow> piece list \<Rightarrow> string list" where
  "split_pieces cur [] = [rev cur]"
| "split_pieces cur (Lit c # ps) = split_pieces (c # cur) ps"
| "split_pieces cur (Hit m gs # ps) = rev cur # split_pieces [] ps"

definition re_split :: "rx \<Rightarrow> string \<Rightarrow> string list" where
  "re_split r s = split_pieces [] (pieces r [] s)"

subsection \<open>The patterns of the program\<close>

text \<open>\<open>ch_i\<close> and \<open>lit_i\<close> compare letters ignoring case, as under \<open>re.I\<close>.\<close>

definition seq :: "rx list \<Rightarrow> rx" where
  "seq rs = foldr Seq rs Eps"

definition ch :: "char \<Rightarrow> rx" where
  "ch c = Chr (\<lambda>x. x = c)"

definition ch_i :: "char \<Rightarrow> rx" where
  "ch_i c = Chr (\<lambda>x. lower_char x = lower_char c)"

definition lit :: "string \<Rightarrow> rx" where
  "lit s = seq (map ch s)"

definition lit_i :: "string \<Rightarrow> rx" where
  "lit_i s = seq (map ch_i s)"

definition opt :: "rx \<Rightarrow> rx" where
  "opt r = Rep r 0 (Some 1)"

definition star :: "rx \<Rightarrow> rx" where
  "star r = Rep r 0 None"

definition plus :: "rx \<Rightarrow> rx" where
  "plus r = Rep r 1 None"

definition is_hex :: "char \<Rightarrow> bool" where
  "is_hex c \<longleftrightarrow> is_digit c \<or> in_range CHR ''a'' CHR ''f'' c \<or> in_range CHR ''A'' CHR ''F'' c"

text \<open>\<^verbatim>\<open>\n\s*\n\<close>, \<^verbatim>\<open>(?<=[.!?])\s+\<close> and \<^verbatim>\<open>hxxp(s?)://\<close> (the last ignoring case).\<close>

definition para_sep :: rx where
  "para_sep = seq [ch CHR 0x0A, star (Chr is_space), ch CHR 0x0A]"

definition sentence_sep :: rx where
  "sentence_sep = seq [Behind (\<lambda>c. c \<in> set ''.!?''), plus (Chr is_space)]"

definition hxxp :: rx where
  "hxxp = seq [lit_i ''hxxp'', Grp 1 (opt (ch_i CHR ''s'')), lit ''://'']"

text \<open>\<^verbatim>\<open>\bCVE-\d{4}-\d{4,7}\b\<close>, ignoring case.\<close>

definition cves_rx :: rx where
  "cves_rx = seq [WordB, lit_i ''CVE-'', Rep (Chr is_digit) 4 (Some 4), ch CHR ''-'',
                  Rep (Chr is_digit) 4 (Some 7), WordB]"

text \<open>\<^verbatim>\<open>\bT\d{4}(?:\.\d{1,3})?\b\<close>, ignoring case.\<close>

definition tids_rx :: rx where
  "tids_rx = seq [WordB, ch_i CHR ''T'', Rep (Chr is_digit) 4 (Some 4),
                  opt (seq [ch CHR ''.'', Rep (Chr is_digit) 1 (Some 3)]), WordB]"

text \<open>\<^verbatim>\<open>\b(?:(?:25[0-5]|2[0-4]\d|1?\d?\d)\.){3}(?:25[0-5]|2[0-4]\d|1?\d?\d)\b\<close>.\<close>

definition octet :: rx where
  "octet =
     Alt (seq [lit ''25'', Chr (in_range CHR ''0'' CHR ''5'')])
    (Alt (seq [ch CHR ''2'', Chr (in_range CHR ''0'' CHR ''4''), Chr is_digit])
         (seq [opt (ch CHR ''1''), opt (Chr is_digit), Chr is_digit]))"

definition ipv4_rx :: rx where
  "ipv4_rx = seq [WordB, Rep (seq [octet, ch CHR ''.'']) 3 (Some 3), octet, WordB]"

text \<open>\<^verbatim>\<open>\b(?:[A-F0-9]{0,4}:){2,7}[A-F0-9]{0,4}\b\<close>, ignoring case.\<close>

definition ipv6_rx :: rx where
  "ipv6_rx = seq [WordB, Rep (seq [Rep (Chr is_hex) 0 (Some 4), ch CHR '':'']) 2 (Some 7),
                  Rep (Chr is_hex) 0 (Some 4), WordB]"

text \<open>\<^verbatim>\<open>\b[a-f0-9]{32}\b|\b[a-f0-9]{40}\b|\b[a-f0-9]{64}\b\<close>, ignoring case.\<close>

definition hashes_rx :: rx where
  "hashes_rx =
     Alt (seq [WordB, Rep (Chr is_hex) 32 (Some 32), WordB])
    (Alt (seq [WordB, Rep (Chr is_hex) 40 (Some 40), WordB])
         (seq [WordB, Rep (Chr is_hex) 64 (Some 64), WordB]))"

text \<open>\<^verbatim>\<open>\b[A-Z0-9._%+-]+@[A-Z0-9.-]+\.[A-Z]{2,}\b\<close>, ignoring case.\<close>

definition emails_rx :: rx where
  "emails_rx =
     seq [WordB,
          plus (Chr (\<lambda>c. is_alpha c \<or> is_digit c \<or> c \<in> set ''._%+-'')),
          ch CHR ''@'',
          plus (Chr (\<lambda>c. is_alpha c \<or> is_digit c \<or> c \<in> set ''.-'')),
          ch CHR ''.'', Rep (Chr is_alpha) 2 None, WordB]"

text \<open>\<^verbatim>\<open>\bhttps?://[^\s<>\]]+\b\<close>, ignoring case.\<close>

definition urls_rx :: rx where
  "urls_rx =
     seq [WordB, lit_i ''http'', opt (ch_i CHR ''s''), lit ''://'',
          plus (Chr (\<lambda>c. \<not> (is_space c \<or> c \<in> set ''<>]''))), WordB]"

text \<open>\<^verbatim>\<open>\b(?:[a-zA-Z0-9-]+\.)+[a-zA-Z]{2,}\b\<close>.\<close>

definition domains_rx :: rx where
  "domains_rx =
     seq [WordB,
          plus (seq [plus (Chr (\<lambda>c. is_alpha c \<or> is_digit c \<or> c = CHR ''-'')), ch CHR ''.'']),
          Rep (Chr is_alpha) 2 None, WordB]"

text \<open>\<^verbatim>\<open>(?:[A-Za-z]:\\(?:[^\\\r\n]+\\)*[^\\\r\n]+)|(?:/(?:[^/\s]+/)*[^/\s]+)\<close>;
  \<open>CHR 0x5C\<close> is the backslash, \<open>CHR 0x0D\<close> and \<open>CHR 0x0A\<close> are CR and LF.\<close>

definition paths_rx :: rx where
  "paths_rx =
     Alt (seq [Chr is_alpha, ch CHR '':'', ch CHR 0x5C,
               star (seq [plus (Chr (\<lambda>c. c \<notin> {CHR 0x5C, CHR 0x0D, CHR 0x0A})), ch CHR 0x5C]),
               plus (Chr (\<lambda>c. c \<notin> {CHR 0x5C, CHR 0x0D, CHR 0x0A}))])
         (seq [ch CHR ''/'',
               star (seq [plus (Chr (\<lambda>c. \<not> (c = CHR ''/'' \<or> is_space c))), ch CHR ''/'']),
               plus (Chr (\<lambda>c. \<not> (c = CHR ''/'' \<or> is_space c)))])"

text \<open>\<^verbatim>\<open>\bport\s?(\d{1,5})\b\<close>, ignoring case.\<close>

definition ports_rx :: rx where
  "ports_rx = seq [WordB, lit_i ''port'', opt (Chr is_space),
                   Grp 1 (Rep (Chr is_digit) 1 (Some 5)), WordB]"

definition IOC_PATTERNS :: "(string \<times> rx) list" where
  "IOC_PATTERNS =
     [(''cves'', cves_rx), (''tids'', tids_rx), (''ipv4'', ipv4_rx), (''ipv6'', ipv6_rx),
      (''hashes'', hashes_rx), (''emails'', emails_rx), (''urls'', urls_rx),
      (''domains'', domains_rx), (''paths'', paths_rx), (''ports'', ports_rx)]"

section \<open>ingestion_process.py: the functions\<close>

subsection \<open>deobfuscate\<close>

text \<open>The replacement template \<^verbatim>\<open>http\1://\<close> inserts the text of group 1.\<close>

definition group_text :: "groups \<Rightarrow> nat \<Rightarrow> string" where
  "group_text gs n = (case group gs n of Some g \<Rightarrow> g | None \<Rightarrow> [])"

definition deobfuscate :: "string \<Rightarrow> string" where
  "deobfuscate text =
     (let t = text;
          t = re_sub hxxp (\<lambda>gs. ''http'' @ group_text gs 1 @ ''://'') t;
          t = replace ''{.}'' ''.'' (replace ''(.)'' ''.'' (replace ''[.]'' ''.'' t))
      in t)"

subsection \<open>chunk_text_by_sentence_and_paragraph\<close>

definition paragraphs_of :: "string \<Rightarrow> string list" where
  "paragraphs_of text = re_split para_sep (strip text)"

definition sentences_of :: "string \<Rightarrow> string list" where
  "sentences_of para = re_split sentence_sep (strip para)"

definition word_count :: "string \<Rightarrow> int" where
  "word_count s = int (length (split_ws s))"

fun add_sentences ::
  "int \<Rightarrow> string list \<Rightarrow> string list \<Rightarrow> string list \<Rightarrow> string list \<times> string list" where
  "add_sentences max_chunk_size [] chunks current_chunk = (chunks, current_chunk)"
| "add_sentences max_chunk_size (sentence # sentences) chunks current_chunk =
     (if word_count (join '' '' (current_chunk @ [sentence])) \<le> max_chunk_size
      then add_sentences max_chunk_size sentences chunks (current_chunk @ [sentence])
      else add_sentences max_chunk_size sentences
             (chunks @ [strip (join '' '' current_chunk)]) [sentence])"

fun add_paragraphs :: "int \<Rightarrow> string list \<Rightarrow> string list \<Rightarrow> string list" where
  "add_paragraphs max_chunk_size [] chunks = chunks"
| "add_paragraphs max_chunk_size (para # paragraphs) chunks =
     (let sentences = sentences_of para;
          (chunks', current_chunk) = add_sentences max_chunk_size sentences chunks []
      in add_paragraphs max_chunk_size paragraphs
           (if current_chunk \<noteq> [] then chunks' @ [strip (join '' '' current_chunk)]
            else chunks'))"

definition chunk_text_by_sentence_and_paragraph :: "string \<Rightarrow> int \<Rightarrow> string list" where
  "chunk_text_by_sentence_and_paragraph text max_chunk_size =
     (let paragraphs = paragraphs_of text;
          chunks = add_paragraphs max_chunk_size paragraphs []
      in filter (\<lambda>c. c \<noteq> []) chunks)"

subsection \<open>extract_iocs\<close>

text \<open>
  \<open>int(v)\<close> on the text of a group: \<open>None\<close> raises \<open>TypeError\<close>, a non-empty string of
  digits is read in base ten. (\<open>int\<close> also accepts a sign, surrounding white space and
  underscores; the group of the port pattern holds digits only.) \<open>str(n)\<close> writes an
  integer in base ten.
\<close>

definition digit_value :: "char \<Rightarrow> nat" where
  "digit_value c = code c - 48"

definition int_of_str :: "string option \<Rightarrow> error + int" where
  "int_of_str v =
     (case v of
        None \<Rightarrow> Inl (TypeError ''int() argument'')
      | Some s \<Rightarrow>
          if s \<noteq> [] \<and> list_all is_digit s
          then Inr (int (foldl (\<lambda>n c. 10 * n + digit_value c) 0 s))
          else Inl (ValueError s))"

definition digit_char :: "nat \<Rightarrow> char" where
  "digit_char d = ''0123456789'' ! d"

function str_of_nat :: "nat \<Rightarrow> string" where
  "str_of_nat n = (if n < 10 then [digit_char n] else str_of_nat (n div 10) @ [digit_char (n mod 10)])"
  by pat_completeness auto
termination
  by (relation "measure id") auto

declare str_of_nat.simps [simp del]

definition str_of_int :: "int \<Rightarrow> string" where
  "str_of_int i = (if i < 0 then CHR ''-'' # str_of_nat (nat (- i)) else str_of_nat (nat i))"

text \<open>
  \<^verbatim>\<open>{str(int(v)) for v in vals if 0 < int(v) <= 65535}\<close>, in the order of \<open>vals\<close>; the
  first \<open>int\<close> that raises ends the comprehension.
\<close>

fun port_values :: "string option list \<Rightarrow> error + string list" where
  "port_values [] = Inr []"
| "port_values (v # vals) =
     (case int_of_str v of
        Inl e \<Rightarrow> Inl e
      | Inr n \<Rightarrow>
          (case port_values vals of
             Inl e \<Rightarrow> Inl e
           | Inr rest \<Rightarrow> Inr (if 0 < n \<and> n \<le> 65535 then str_of_int n # rest else rest)))"

text \<open>
  One round of the loop over \<open>IOC_PATTERNS\<close>. The order in which a Python set of strings
  is iterated depends on the hash seed of the interpreter; \<open>set_list\<close> stands for
  \<open>list(set(xs))\<close>, and only \<open>set_order\<close> below is known of it. \<open>findall\<close> returns strings
  for the nine patterns without a group, so the test for tuples never applies.
\<close>

definition set_order :: "(string list \<Rightarrow> string list) \<Rightarrow> bool" where
  "set_order set_list \<longleftrightarrow> (\<forall>xs. set (set_list xs) = set xs \<and> distinct (set_list xs))"

definition ioc_values ::
  "(string list \<Rightarrow> string list) \<Rightarrow> string \<Rightarrow> rx \<Rightarrow> string \<Rightarrow> error + string list" where
  "ioc_values set_list key rx text =
     (if key = ''ports'' then
        (case port_values (map (\<lambda>gs. group gs 1) (finditer rx text)) of
           Inl e \<Rightarrow> Inl e
         | Inr vals \<Rightarrow> Inr (sort (set_list vals)))
      else
        (let vals = findall rx text in
         if key \<in> set [''cves'', ''tids'', ''hashes'', ''emails'', ''urls'', ''domains'', ''paths'']
         then Inr (sort (set_list (map strip vals)))
         else if key \<in> set [''ipv4'', ''ipv6'']
         then Inr (sort (set_list (map (\<lambda>v. lower (strip v)) vals)))
         else Inr (sort vals)))"

fun ioc_loop ::
  "(string list \<Rightarrow> string list) \<Rightarrow> string \<Rightarrow> (string \<times> rx) list
     \<Rightarrow> (string \<times> string list) list \<Rightarrow> error + (string \<times> string list) list" where
  "ioc_loop set_list text [] md = Inr md"
| "ioc_loop set_list text ((key, rx) # patterns) md =
     (case ioc_values set_list key rx text of
        Inl e \<Rightarrow> Inl e
      | Inr vals \<Rightarrow> ioc_loop set_list text patterns (AList.update key vals md))"

definition extract_iocs ::
  "(string list \<Rightarrow> string list) \<Rightarrow> string \<Rightarrow> error + (string \<times> string list) list" where
  "extract_iocs set_list raw_text =
     (let text = deobfuscate raw_text in
      case ioc_loop set_list text IOC_PATTERNS [] of
        Inl e \<Rightarrow> Inl e
      | Inr md \<Rightarrow>
          (case getitem md ''ipv4'' of
             Inl e \<Rightarrow> Inl e
           | Inr v4 \<Rightarrow>
               (let md = AList.update ''ipv4'' (set_list v4) md in
                case getitem md ''ipv6'' of
                  Inl e \<Rightarrow> Inl e
                | Inr v6 \<Rightarrow> Inr (AList.update ''ipv6'' (set_list v6) md))))"



section \<open>Notions used in the statements\<close>

subsection \<open>What a pattern can consume\<close>

text \<open>
  Three syntactic checks on a pattern: every character it consumes satisfies \<open>P\<close>; every
  match consumes at least one character; it captures no group.
\<close>

primrec only :: "(char \<Rightarrow> bool) \<Rightarrow> rx \<Rightarrow> bool" where
  "only P (Chr Q) = (\<forall>c. Q c \<longrightarrow> P c)"
| "only P (Seq a b) = (only P a \<and> only P b)"
| "only P (Alt a b) = (only P a \<and> only P b)"
| "only P (Rep r lo hi) = only P r"
| "only P (Grp n r) = only P r"
| "only P WordB = True"
| "only P (Behind Q) = True"
| "only P Eps = True"

primrec consuming :: "rx \<Rightarrow> bool" where
  "consuming (Chr Q) = True"
| "consuming (Seq a b) = (consuming a \<or> consuming b)"
| "consuming (Alt a b) = (consuming a \<and> consuming b)"
| "consuming (Rep r lo hi) = (0 < lo \<and> consuming r)"
| "consuming (Grp n r) = consuming r"
| "consuming WordB = False"
| "consuming (Behind Q) = False"
| "consuming Eps = False"

primrec group_free :: "rx \<Rightarrow> bool" where
  "group_free (Chr Q) = True"
| "group_free (Seq a b) = (group_free a \<and> group_free b)"
| "group_free (Alt a b) = (group_free a \<and> group_free b)"
| "group_free (Rep r lo hi) = group_free r"
| "group_free (Grp n r) = False"
| "group_free WordB = True"
| "group_free (Behind Q) = True"
| "group_free Eps = True"

text \<open>From \<open>st\<close> to \<open>st'\<close> the position moved over a text \<open>m\<close> whose characters satisfy
  \<open>P\<close>.\<close>

definition steps :: "(char \<Rightarrow> bool) \<Rightarrow> mstate \<Rightarrow> mstate \<Rightarrow> bool" where
  "steps P st st' \<longleftrightarrow>
     (\<exists>m. list_all P m \<and> fst st' = rev m @ fst st \<and> fst (snd st) = m @ fst (snd st'))"

text \<open>The text that a piece of a scan stands for, and the step over one character.\<close>

primrec piece_text :: "piece \<Rightarrow> string" where
  "piece_text (Lit c) = [c]"
| "piece_text (Hit m gs) = m"

definition skip_char :: "rx \<Rightarrow> string \<Rightarrow> string \<Rightarrow> piece list" where
  "skip_char r pre rest = (case rest of [] \<Rightarrow> [] | c # cs \<Rightarrow> Lit c # pieces r (c # pre) cs)"

subsection \<open>Sentences and chunks\<close>

text \<open>The sentences of a text: those of its paragraphs, in order.\<close>

definition all_sentences :: "string \<Rightarrow> string list" where
  "all_sentences text = concat (map sentences_of (paragraphs_of text))"

text \<open>
  A chunk is in order when it is empty (such chunks are dropped at the end), within the
  bound, or a single sentence beyond the bound; the running chunk is in order when it
  is empty, within the bound, or a single sentence.
\<close>

definition chunk_ok :: "int \<Rightarrow> string set \<Rightarrow> string \<Rightarrow> bool" where
  "chunk_ok mx S c \<longleftrightarrow> c = [] \<or> word_count c \<le> mx \<or> (\<exists>s\<in>S. c = strip s \<and> mx < word_count s)"

definition current_ok :: "int \<Rightarrow> string set \<Rightarrow> string list \<Rightarrow> bool" where
  "current_ok mx S cur \<longleftrightarrow> cur = [] \<or> word_count (join '' '' cur) \<le> mx \<or> (\<exists>s\<in>S. cur = [s])"

text \<open>A sample text: one paragraph of two sentences, of three words and of one.\<close>

definition two_sentences :: string where
  "two_sentences = ''One two three. Four.''"

subsection \<open>Indicator lists\<close>

text \<open>A port entry: the decimal rendering of an integer from 1 to 65535.\<close>

definition is_port :: "string \<Rightarrow> bool" where
  "is_port v \<longleftrightarrow> (\<exists>n. 1 \<le> n \<and> n \<le> 65535 \<and> v = str_of_int n)"

text \<open>The dictionary that \<open>extract_iocs\<close> returns for the deobfuscated text \<open>t\<close> and the
  accepted port numbers \<open>ps\<close>.\<close>

definition indicator_lists ::
  "(string list \<Rightarrow> string list) \<Rightarrow> string \<Rightarrow> string list \<Rightarrow> (string \<times> string list) list" where
  "indicator_lists sl t ps =
     [(''cves'', sort (sl (map strip (findall cves_rx t)))),
      (''tids'', sort (sl (map strip (findall tids_rx t)))),
      (''ipv4'', sl (sort (sl (map (\<lambda>v. lower (strip v)) (findall ipv4_rx t))))),
      (''ipv6'', sl (sort (sl (map (\<lambda>v. lower (strip v)) (findall ipv6_rx t))))),
      (''hashes'', sort (sl (map strip (findall hashes_rx t)))),
      (''emails'', sort (sl (map strip (findall emails_rx t)))),
      (''urls'', sort (sl (map strip (findall urls_rx t)))),
      (''domains'', sort (sl (map strip (findall domains_rx t)))),
      (''paths'', sort (sl (map strip (findall paths_rx t)))),
      (''ports'', sort (sl ps))]"

section \<open>Properties of the relevance filter\<close>

subsection \<open>Dropping duplicates\<close>


lemma keep_first_snoc:
  "keep_first (xs @ [x]) = (if x \<in> set xs then keep_first xs else keep_first xs @ [x])"
  by (simp add: keep_first_def)

lemma set_keep_first [simp]: "set (keep_first xs) = set xs"
  by (simp add: keep_first_def)

lemma distinct_keep_first [simp]: "distinct (keep_first xs)"
  by (simp add: keep_first_def)

lemma keep_first_Nil [simp]: "keep_first [] = []"
  by (simp add: keep_first_def)

lemma filter_keep_first: "filter P (keep_first xs) = keep_first (filter P xs)"
  by (simp add: keep_first_def rev_filter remdups_filter)

lemma map_keep_first: "inj_on f (set xs) \<Longrightarrow> map f (keep_first xs) = keep_first (map f xs)"
proof (induction xs rule: rev_induct)
  case Nil
  then show ?case by simp
next
  case (snoc x xs)
  then have inj: "inj_on f (insert x (set xs))" by simp
  then have "inj_on f (set xs)" by (rule inj_on_subset) auto
  with snoc have IH: "map f (keep_first xs) = keep_first (map f xs)" by simp
  have "f x \<in> f ` set xs \<longleftrightarrow> x \<in> set xs"
    using inj by (auto simp: inj_on_def)
  then show ?case
    using IH by (simp add: keep_first_snoc)
qed

subsection \<open>Dictionaries built by assignment\<close>

lemma map_of_foldl_update:
  "map_of (foldl (\<lambda>d (k, v). AList.update k v d) acc ps) = map_of acc ++ map_of (rev ps)"
proof (induction ps arbitrary: acc)
  case Nil
  then show ?case by simp
next
  case (Cons p ps)
  obtain k v where p: "p = (k, v)" by (cases p)
  show ?case
    by (auto simp: Cons p update_conv' map_of_append fun_eq_iff map_add_def split: option.splits)
qed

lemma distinct_foldl_update:
  "distinct (map fst acc) \<Longrightarrow>
   distinct (map fst (foldl (\<lambda>d (k, v). AList.update k v d) acc ps))"
proof (induction ps arbitrary: acc)
  case Nil
  then show ?case by simp
next
  case (Cons p ps)
  obtain k v where p: "p = (k, v)" by (cases p)
  from Cons.prems have "distinct (map fst (AList.update k v acc))"
    by (rule distinct_update)
  then show ?case
    using Cons.IH by (simp add: p)
qed

lemma keys_foldl_update:
  "fst ` set (foldl (\<lambda>d (k, v). AList.update k v d) acc ps) = fst ` set acc \<union> fst ` set ps"
proof (induction ps arbitrary: acc)
  case Nil
  then show ?case by simp
next
  case (Cons p ps)
  obtain k v where p: "p = (k, v)" by (cases p)
  show ?case
    by (simp add: Cons.IH p dom_update)
qed

lemma distinct_dict_of_pairs: "distinct (map fst (dict_of_pairs ps))"
  by (simp add: dict_of_pairs_def distinct_foldl_update)

lemma keys_dict_of_pairs: "fst ` set (dict_of_pairs ps) = fst ` set ps"
  by (simp add: dict_of_pairs_def keys_foldl_update)

lemma map_of_rev_last:
  "map_of (rev ps) k =
     (if k \<in> fst ` set ps then Some (snd (last (filter (\<lambda>r. fst r = k) ps))) else None)"
  by (induction ps rule: rev_induct) (auto simp: image_iff)

lemma map_of_dict_of_pairs:
  "map_of (dict_of_pairs ps) k =
     (if k \<in> fst ` set ps then Some (snd (last (filter (\<lambda>r. fst r = k) ps))) else None)"
  by (simp add: dict_of_pairs_def map_of_foldl_update map_of_rev_last)

subsection \<open>The loop over well-formed hits\<close>

lemma getitem_well_formed:
  "well_formed h \<Longrightarrow> getitem h ''doc_name'' = Inr (fst (row_of h))"
  "well_formed h \<Longrightarrow> getitem h ''text'' = Inr (snd (row_of h))"
  by (auto simp: well_formed_def getitem_def row_of_def)

lemma collect_well_formed:
  "\<forall>h\<in>set hits. well_formed h \<Longrightarrow>
   collect hits rd hs = Inr (rd @ map row_of hits, foldl count_hit hs (doc_names hits))"
proof (induction hits arbitrary: rd hs)
  case Nil
  then show ?case by (simp add: doc_names_def)
next
  case (Cons h hits)
  then show ?case by (simp add: getitem_well_formed doc_names_def)
qed

lemma update_tabulate:
  "distinct ks \<Longrightarrow> AList.update k v (map (\<lambda>d. (d, f d)) ks) =
     (if k \<in> set ks then map (\<lambda>d. (d, (f(k := v)) d)) ks
      else map (\<lambda>d. (d, f d)) ks @ [(k, v)])"
  by (induction ks) auto

lemma map_of_tabulate: "map_of (map (\<lambda>d. (d, f d)) ks) k = (if k \<in> set ks then Some (f k) else None)"
  by (induction ks) auto

lemma foldl_count_hit:
  "foldl count_hit [] ns = map (\<lambda>d. (d, tally ns d)) (keep_first ns)"
proof (induction ns rule: rev_induct)
  case Nil
  then show ?case by simp
next
  case (snoc n ns)
  have t: "tally (ns @ [n]) = (tally ns)(n := tally ns n + 1)"
    by (auto simp: tally_def fun_eq_iff)
  have step: "foldl count_hit [] (ns @ [n]) = count_hit (map (\<lambda>d. (d, tally ns d)) (keep_first ns)) n"
    by (simp add: snoc)
  show ?case
  proof (cases "n \<in> set ns")
    case True
    then show ?thesis
      unfolding step
      by (simp add: count_hit_def map_of_tabulate update_tabulate keep_first_snoc t)
  next
    case False
    then have z: "tally ns n = 0" by (auto simp: tally_def filter_empty_conv)
    have "map (\<lambda>d. (d, tally (ns @ [n]) d)) (keep_first ns) = map (\<lambda>d. (d, tally ns d)) (keep_first ns)"
      using False by (auto simp: t)
    moreover have "tally (ns @ [n]) n = 1" using z by (simp add: t)
    ultimately show ?thesis
      using False z unfolding step
      by (simp add: count_hit_def map_of_tabulate update_tabulate keep_first_snoc)
  qed
qed

lemma hitsdict_eq:
  "foldl count_hit [] (doc_names hits) = map (\<lambda>d. (d, hit_count hits d)) (documents hits)"
  using foldl_count_hit[of "doc_names hits"]
  by (simp add: documents_def hit_count_def)




subsection \<open>The filter on well-formed hits\<close>

lemma filterresults_eq:
  assumes wf: "\<forall>h\<in>set hits. well_formed h" and ne: "hits \<noteq> []"
  shows "filterresults Q hits =
     Inr (dict_of_pairs (filter (\<lambda>r. py_int (Q (hit_counts hits) (9 / 10)) \<le> hit_count hits (fst r))
            (keep_first (map row_of hits))))"
proof -
  let ?thr = "py_int (Q (hit_counts hits) (9 / 10))"
  let ?hd = "map (\<lambda>d. (d, hit_count hits d)) (documents hits)"
  have c: "collect hits [] [] = Inr (map row_of hits, ?hd)"
    using collect_well_formed[OF wf, of "[]" "[]"] by (simp add: hitsdict_eq)
  have docs_ne: "documents hits \<noteq> []"
    using ne by (metis documents_def doc_names_def set_keep_first set_empty map_is_Nil_conv)
  have snd_hd: "map snd ?hd = hit_counts hits"
    by (simp add: hit_counts_def comp_def)
  have hv: "map fst (filter (\<lambda>(key, value). ?thr \<le> value) ?hd)
              = filter (\<lambda>d. ?thr \<le> hit_count hits d) (documents hits)"
    by (simp add: filter_map comp_def)
  have mem: "\<And>r. r \<in> set (map row_of hits) \<Longrightarrow> fst r \<in> set (documents hits)"
    by (auto simp: documents_def doc_names_def)
  have flt: "filter (\<lambda>r. fst r \<in> set (documents hits) \<and> ?thr \<le> hit_count hits (fst r))
               (keep_first (map row_of hits))
           = filter (\<lambda>r. ?thr \<le> hit_count hits (fst r)) (keep_first (map row_of hits))"
    by (rule filter_cong) (use mem in auto)
  have len: "length ?hd > 0" using docs_ne by simp
  have rows_ne: "map row_of hits \<noteq> []" using ne by simp
  show ?thesis
    apply (simp only: filterresults_def c sum.case prod.case Let_def snd_hd hv len if_True)
    apply (simp only: DataFrame_def rows_ne if_False drop_duplicates_def loc_isin_def column_def flt)
    apply (simp add: zip_map_fst_snd flt)
    done
qed

lemma keys_filter_fst: "fst ` set (filter (\<lambda>r. p (fst r)) xs) = {d \<in> fst ` set xs. p d}"
  by force


lemma keys_rows: "fst ` set (map row_of hits) = set (documents hits)"
  by (simp add: documents_def doc_names_def image_comp)

text \<open>
  Claim C1, as amended. For every non-empty list of well-formed hits the filter returns
  a map whose keys are exactly the documents whose hit-count is at least the 90th
  percentile of the hit-counts \<^emph>\<open>truncated to an integer\<close> (the code applies \<open>int\<close> to
  the percentile before comparing). When every document's hit-count equals the
  percentile, as it does when all counts are equal, every document is kept.
\<close>

theorem filter_retains_at_truncated_percentile:
  assumes wf: "\<forall>h\<in>set hits. well_formed h" and ne: "hits \<noteq> []"
  shows "\<exists>m. filterresults Q hits = Inr m
           \<and> fst ` set m =
               {d \<in> set (documents hits). py_int (Q (hit_counts hits) (9 / 10)) \<le> hit_count hits d}
           \<and> ((\<forall>d\<in>set (documents hits). of_int (hit_count hits d) = Q (hit_counts hits) (9 / 10))
                \<longrightarrow> fst ` set m = set (documents hits))"
proof -
  let ?thr = "py_int (Q (hit_counts hits) (9 / 10))"
  let ?m = "dict_of_pairs (filter (\<lambda>r. ?thr \<le> hit_count hits (fst r)) (keep_first (map row_of hits)))"
  have 1: "filterresults Q hits = Inr ?m"
    by (rule filterresults_eq[OF wf ne])
  have 2: "fst ` set ?m = {d \<in> set (documents hits). ?thr \<le> hit_count hits d}"
    unfolding keys_dict_of_pairs keys_filter_fst[of "\<lambda>d. ?thr \<le> hit_count hits d"]
      set_keep_first keys_rows ..
  have 3: "fst ` set ?m = set (documents hits)"
    if "\<forall>d\<in>set (documents hits). of_int (hit_count hits d) = Q (hit_counts hits) (9 / 10)"
  proof -
    have "?thr \<le> hit_count hits d" if "d \<in> set (documents hits)" for d
    proof -
      have "Q (hit_counts hits) (9 / 10) = of_int (hit_count hits d)"
        using that \<open>\<forall>d\<in>set (documents hits). _\<close> by simp
      then show ?thesis by (simp add: py_int_def)
    qed
    then show ?thesis unfolding 2 by auto
  qed
  show ?thesis using 1 2 3 by blast
qed

lemma texts_of_eq:
  "map snd (filter (\<lambda>r. fst r = d) (keep_first (map row_of hits))) = texts_of hits d"
proof -
  have "inj_on snd (set (filter (\<lambda>r. fst r = d) (map row_of hits)))"
    by (auto simp: inj_on_def)
  then show ?thesis
    unfolding texts_of_def filter_keep_first by (rule map_keep_first)
qed

text \<open>
  Claim C8. The returned map has one entry per retained document, and its text is the
  last of the document's distinct matching chunk texts, taken in order of first
  appearance: exact duplicate rows are dropped keeping the first occurrence, and the
  mapping construction then lets the last remaining row of each document win.
\<close>

theorem one_text_per_document_last_wins:
  assumes wf: "\<forall>h\<in>set hits. well_formed h" and ne: "hits \<noteq> []"
  shows "\<exists>m. filterresults Q hits = Inr m
           \<and> distinct (map fst m)
           \<and> (\<forall>d\<in>fst ` set m. map_of m d = Some (last (texts_of hits d)))"
proof -
  let ?thr = "py_int (Q (hit_counts hits) (9 / 10))"
  let ?rows = "filter (\<lambda>r. ?thr \<le> hit_count hits (fst r)) (keep_first (map row_of hits))"
  let ?m = "dict_of_pairs ?rows"
  have 1: "filterresults Q hits = Inr ?m"
    by (rule filterresults_eq[OF wf ne])
  have 2: "distinct (map fst ?m)"
    by (rule distinct_dict_of_pairs)
  have 3: "map_of ?m d = Some (last (texts_of hits d))" if "d \<in> fst ` set ?m" for d
  proof -
    from that have d: "d \<in> fst ` set ?rows" by (simp add: keys_dict_of_pairs)
    then have thr: "?thr \<le> hit_count hits d" by auto
    have f: "filter (\<lambda>r. fst r = d) ?rows = filter (\<lambda>r. fst r = d) (keep_first (map row_of hits))"
      unfolding filter_filter by (rule filter_cong) (use thr in auto)
    have nonempty: "filter (\<lambda>r. fst r = d) (keep_first (map row_of hits)) \<noteq> []"
      using d unfolding f[symmetric] by (auto simp: filter_empty_conv)
    have "map_of ?m d = Some (snd (last (filter (\<lambda>r. fst r = d) ?rows)))"
      using d by (simp only: map_of_dict_of_pairs if_True)
    also have "\<dots> = Some (last (texts_of hits d))"
      unfolding f texts_of_eq[symmetric] using nonempty by (simp add: last_map)
    finally show ?thesis .
  qed
  show ?thesis using 1 2 3 by blast
qed


subsection \<open>Concrete runs\<close>

lemma floor_nine_tenths: "\<lfloor>9 / 10 :: rat\<rfloor> = 0"
  by (simp add: floor_eq_iff)

lemma well_formed_mk_hit: "well_formed (mk_hit d t)"
  by (simp add: well_formed_def mk_hit_def)

lemma row_of_mk_hit: "row_of (mk_hit d t) = (d, t)"
  by (simp add: row_of_def mk_hit_def)

lemma quantile_linear_const:
  assumes ne: "vals \<noteq> []" and c: "\<forall>v\<in>set vals. v = c" and q: "0 \<le> q" "q \<le> 1"
  shows "quantile_linear vals q = of_int c"
proof -
  let ?s = "sort vals"
  let ?n = "length ?s"
  let ?pos = "of_nat (?n - 1) * q :: rat"
  have n: "0 < ?n" using ne by simp
  have "?pos \<le> of_nat (?n - 1)"
    using q by (simp add: mult_left_le)
  then have "\<lfloor>?pos\<rfloor> \<le> int (?n - 1)"
    by (simp add: floor_le_iff) 
  then have j: "nat \<lfloor>?pos\<rfloor> < ?n" using n by linarith
  have k: "min (nat \<lfloor>?pos\<rfloor> + 1) (?n - 1) < ?n" using n by linarith
  have a: "?s ! nat \<lfloor>?pos\<rfloor> = c"
    using c nth_mem[OF j] by simp
  have b: "?s ! min (nat \<lfloor>?pos\<rfloor> + 1) (?n - 1) = c"
    using c nth_mem[OF k] by simp
  show ?thesis
    using ne unfolding quantile_linear_def Let_def a b by simp
qed

theorem filter_retains_at_truncated_percentile_witness:
  "list_all well_formed hits_AB \<and> hits_AB \<noteq> []
   \<and> of_int (hit_count hits_AB ''A'') = quantile_linear (hit_counts hits_AB) (9 / 10)
   \<and> of_int (hit_count hits_AB ''B'') = quantile_linear (hit_counts hits_AB) (9 / 10)
   \<and> (\<exists>m. filterresults quantile_linear hits_AB = Inr m
          \<and> fst ` set m = {''A'', ''B''})"
proof -
  have wf: "\<forall>h\<in>set hits_AB. well_formed h"
    by (simp add: hits_AB_def well_formed_mk_hit)
  have ne: "hits_AB \<noteq> []"
    by (simp add: hits_AB_def)
  have docs: "documents hits_AB = [''A'', ''B'']"
    by (simp add: documents_def doc_names_def hits_AB_def row_of_mk_hit keep_first_def)
  have cnt: "hit_count hits_AB ''A'' = 1" "hit_count hits_AB ''B'' = 1"
    by (simp_all add: hit_count_def tally_def doc_names_def hits_AB_def row_of_mk_hit)
  have q: "quantile_linear (hit_counts hits_AB) (9 / 10) = 1"
    by (simp add: hit_counts_def docs cnt quantile_linear_def Let_def)
  have tie: "\<forall>d\<in>set (documents hits_AB).
      of_int (hit_count hits_AB d) = quantile_linear (hit_counts hits_AB) (9 / 10)"
    by (simp add: docs cnt q)
  from filter_retains_at_truncated_percentile[OF wf ne, of quantile_linear] tie
  have "\<exists>m. filterresults quantile_linear hits_AB = Inr m \<and> fst ` set m = set (documents hits_AB)"
    by blast
  with wf ne show ?thesis
    by (simp add: docs cnt q list_all_iff)
qed

text \<open>
  Claim C1 as stated fails. Document \<open>A\<close> has two hits and \<open>B\<close> has one: the 90th
  percentile of the counts is \<open>19/10\<close>, above the count of \<open>B\<close>, and \<open>B\<close> is retained
  all the same, because the threshold used is \<open>int(1.9) = 1\<close>.
\<close>

theorem percentile_threshold_counterexample:
  "filterresults quantile_linear hits_AAB = Inr [(''A'', ''t2''), (''B'', ''t3'')]
   \<and> hit_count hits_AAB ''B'' = 1
   \<and> quantile_linear (hit_counts hits_AAB) (9 / 10) = 19 / 10
   \<and> \<not> quantile_linear (hit_counts hits_AAB) (9 / 10) \<le> of_int (hit_count hits_AAB ''B'')"
proof -
  have wf: "\<forall>h\<in>set hits_AAB. well_formed h"
    by (simp add: hits_AAB_def well_formed_mk_hit)
  have ne: "hits_AAB \<noteq> []"
    by (simp add: hits_AAB_def)
  have docs: "documents hits_AAB = [''A'', ''B'']"
    by (simp add: documents_def doc_names_def hits_AAB_def row_of_mk_hit keep_first_def)
  have cnt: "hit_count hits_AAB ''A'' = 2" "hit_count hits_AAB ''B'' = 1"
    by (simp_all add: hit_count_def tally_def doc_names_def hits_AAB_def row_of_mk_hit)
  have q: "quantile_linear (hit_counts hits_AAB) (9 / 10) = 19 / 10"
    by (simp add: hit_counts_def docs cnt quantile_linear_def Let_def floor_nine_tenths)
  have thr: "py_int (19 / 10) = 1"
    by (simp add: py_int_def floor_eq_iff)
  have rows: "keep_first (map row_of hits_AAB) = [(''A'', ''t1''), (''A'', ''t2''), (''B'', ''t3'')]"
    by (simp add: hits_AAB_def row_of_mk_hit keep_first_def)
  have "filterresults quantile_linear hits_AAB = Inr [(''A'', ''t2''), (''B'', ''t3'')]"
    unfolding filterresults_eq[OF wf ne] q thr rows
    by (simp add: cnt dict_of_pairs_def)
  then show ?thesis
    using cnt q by simp
qed

lemma filterresults_hits_AAA:
  "filterresults quantile_linear hits_AAA = Inr [(''A'', ''t2'')]"
proof -
  have wf: "\<forall>h\<in>set hits_AAA. well_formed h"
    by (simp add: hits_AAA_def well_formed_mk_hit)
  have ne: "hits_AAA \<noteq> []"
    by (simp add: hits_AAA_def)
  have docs: "documents hits_AAA = [''A'']"
    by (simp add: documents_def doc_names_def hits_AAA_def row_of_mk_hit keep_first_def)
  have cnt: "hit_count hits_AAA ''A'' = 3"
    by (simp add: hit_count_def tally_def doc_names_def hits_AAA_def row_of_mk_hit)
  have q: "py_int (quantile_linear (hit_counts hits_AAA) (9 / 10)) = 3"
    by (simp add: hit_counts_def docs cnt quantile_linear_def Let_def py_int_def)
  have rows: "keep_first (map row_of hits_AAA) = [(''A'', ''t1''), (''A'', ''t2'')]"
    by (simp add: hits_AAA_def row_of_mk_hit keep_first_def)
  show ?thesis
    unfolding filterresults_eq[OF wf ne] q rows
    by (simp add: cnt dict_of_pairs_def)
qed

theorem one_text_per_document_last_wins_witness:
  "list_all well_formed hits_AAA \<and> hits_AAA \<noteq> []
   \<and> texts_of hits_AAA ''A'' = [''t1'', ''t2'']
   \<and> (\<exists>m. filterresults quantile_linear hits_AAA = Inr m
          \<and> distinct (map fst m)
          \<and> ''A'' \<in> fst ` set m
          \<and> map_of m ''A'' = Some ''t2'')"
proof -
  have wf: "\<forall>h\<in>set hits_AAA. well_formed h"
    by (simp add: hits_AAA_def well_formed_mk_hit)
  have ne: "hits_AAA \<noteq> []"
    by (simp add: hits_AAA_def)
  have t: "texts_of hits_AAA ''A'' = [''t1'', ''t2'']"
    by (simp add: texts_of_def hits_AAA_def row_of_mk_hit keep_first_def)
  from one_text_per_document_last_wins[OF wf ne, of quantile_linear]
  obtain m where m: "filterresults quantile_linear hits_AAA = Inr m" "distinct (map fst m)"
    "\<forall>d\<in>fst ` set m. map_of m d = Some (last (texts_of hits_AAA d))"
    by blast
  from m(1) have "m = [(''A'', ''t2'')]"
    by (simp add: filterresults_hits_AAA)
  then have A: "''A'' \<in> fst ` set m" by simp
  with m(3) have "map_of m ''A'' = Some (last (texts_of hits_AAA ''A''))"
    by blast
  then have "map_of m ''A'' = Some ''t2''"
    by (simp add: t)
  with wf ne t m A show ?thesis
    by (auto simp: list_all_iff)
qed

text \<open>
  Claim C2. With no hit at all the frame is built from an empty list and has no
  columns; the guard \<open>len(hitsdict) > 0\<close> skips the percentile step, and the read of
  \<open>res_df['doc_name']\<close> for the final map raises \<open>KeyError\<close>. The filter does not
  return the empty map.
\<close>

theorem filterresults_empty_raises:
  "filterresults quantile [] = Inl (KeyError ''doc_name'')"
  by (simp add: filterresults_def DataFrame_def drop_duplicates_def column_def keep_first_def)

section \<open>Properties of the strings\<close>

subsection \<open>Words\<close>

lemma split_from_space_mid:
  "is_space c \<Longrightarrow> split_from cur (xs @ c # ys) = split_from cur xs @ split_from [] ys"
  by (induction xs arbitrary: cur) auto

lemma split_ws_Nil [simp]: "split_ws [] = []"
  by (simp add: split_ws_def)

lemma split_ws_space_mid:
  "is_space c \<Longrightarrow> split_ws (xs @ c # ys) = split_ws xs @ split_ws ys"
  by (simp add: split_ws_def split_from_space_mid)

lemma split_ws_space_Cons: "is_space c \<Longrightarrow> split_ws (c # s) = split_ws s"
  using split_ws_space_mid[of c "[]" s] by simp

lemma split_ws_space_snoc: "is_space c \<Longrightarrow> split_ws (s @ [c]) = split_ws s"
  using split_ws_space_mid[of c s "[]"] by simp

lemma split_ws_dropWhile: "split_ws (dropWhile is_space s) = split_ws s"
  by (induction s) (simp_all add: split_ws_space_Cons)

lemma split_ws_rev_dropWhile: "split_ws (rev (dropWhile is_space (rev s))) = split_ws s"
  by (induction s rule: rev_induct) (simp_all add: split_ws_space_snoc)

lemma split_ws_strip [simp]: "split_ws (strip s) = split_ws s"
  by (simp add: strip_def split_ws_rev_dropWhile split_ws_dropWhile)

lemma is_space_blank: "is_space CHR '' ''"
  by (simp add: is_space_def code_def)

lemma split_ws_join: "split_ws (join '' '' xs) = concat (map split_ws xs)"
  by (induction "'' ''" xs rule: join.induct) (simp_all add: split_ws_space_mid is_space_blank)

lemma word_count_strip [simp]: "word_count (strip s) = word_count s"
  by (simp add: word_count_def)

lemma strip_not_blank: "strip s \<noteq> [] \<Longrightarrow> \<not> list_all is_space (strip s)"
proof -
  assume ne: "strip s \<noteq> []"
  let ?t = "dropWhile is_space (rev (dropWhile is_space s))"
  from ne have t: "?t \<noteq> []" by (simp add: strip_def)
  then have "\<not> is_space (hd ?t)" by (rule hd_dropWhile)
  moreover have "hd ?t \<in> set (strip s)"
    using t by (simp add: strip_def)
  ultimately show ?thesis by (auto simp: list_all_iff)
qed

section \<open>Properties of the chunker\<close>

subsection \<open>The loops keep every word\<close>

lemma add_sentences_words:
  "add_sentences mx ss chunks cur = (chunks', cur') \<Longrightarrow>
   concat (map split_ws chunks') @ concat (map split_ws cur')
     = concat (map split_ws chunks) @ concat (map split_ws cur) @ concat (map split_ws ss)"
  by (induction mx ss chunks cur rule: add_sentences.induct)
     (auto simp: split_ws_join split: if_splits)

lemma add_paragraphs_words:
  "concat (map split_ws (add_paragraphs mx ps chunks))
     = concat (map split_ws chunks) @ concat (map (\<lambda>p. concat (map split_ws (sentences_of p))) ps)"
proof (induction mx ps chunks rule: add_paragraphs.induct)
  case (1 mx chunks)
  then show ?case by simp
next
  case (2 mx para ps chunks)
  obtain chunks' cur' where r: "add_sentences mx (sentences_of para) chunks [] = (chunks', cur')"
    by (cases "add_sentences mx (sentences_of para) chunks []")
  from add_sentences_words[OF r]
  have w: "concat (map split_ws chunks') @ concat (map split_ws cur')
       = concat (map split_ws chunks) @ concat (map split_ws (sentences_of para))"
    by simp
  have "concat (map split_ws (if cur' \<noteq> [] then chunks' @ [strip (join '' '' cur')] else chunks'))
       = concat (map split_ws chunks') @ concat (map split_ws cur')"
    by (simp add: split_ws_join)
  with "2.IH"[OF refl r[symmetric] refl] w show ?case
    by (simp add: r Let_def)
qed

lemma concat_split_ws_filter:
  "concat (map split_ws (filter (\<lambda>c. c \<noteq> []) cs)) = concat (map split_ws cs)"
  by (induction cs) auto

lemma concat_map_concat:
  "concat (map (\<lambda>p. concat (map f (g p))) ps) = concat (map f (concat (map g ps)))"
  by (induction ps) auto

lemma chunks_words:
  "split_ws (join '' '' (chunk_text_by_sentence_and_paragraph text mx))
     = concat (map split_ws (all_sentences text))"
  by (simp add: chunk_text_by_sentence_and_paragraph_def Let_def split_ws_join
        concat_split_ws_filter add_paragraphs_words all_sentences_def concat_map_concat)

subsection \<open>Chunk sizes\<close>

lemma strip_Nil [simp]: "strip [] = []"
  by (simp add: strip_def)

lemma flush_ok:
  assumes "current_ok mx S cur"
  shows "chunk_ok mx S (strip (join '' '' cur))"
proof -
  consider "cur = []" | "word_count (join '' '' cur) \<le> mx" | s where "s \<in> S" "cur = [s]"
    using assms unfolding current_ok_def by blast
  then show ?thesis
  proof cases
    case 1
    then show ?thesis by (simp add: chunk_ok_def)
  next
    case 2
    then show ?thesis by (simp add: chunk_ok_def)
  next
    case 3
    show ?thesis
    proof (cases "word_count s \<le> mx")
      case True
      then show ?thesis using 3 by (simp add: chunk_ok_def)
    next
      case False
      then have "mx < word_count s" by simp
      then show ?thesis using 3 unfolding chunk_ok_def by auto
    qed
  qed
qed

lemma add_sentences_ok:
  "add_sentences mx ss chunks cur = (chunks', cur') \<Longrightarrow>
   \<forall>c\<in>set chunks. chunk_ok mx S c \<Longrightarrow> current_ok mx S cur \<Longrightarrow> set ss \<subseteq> S \<Longrightarrow>
   (\<forall>c\<in>set chunks'. chunk_ok mx S c) \<and> current_ok mx S cur'"
proof (induction mx ss chunks cur rule: add_sentences.induct)
  case (1 mx chunks cur)
  then show ?case by simp
next
  case (2 mx s ss chunks cur)
  have sub: "set ss \<subseteq> S" and s: "s \<in> S" using "2.prems"(4) by simp_all
  show ?case
  proof (cases "word_count (join '' '' (cur @ [s])) \<le> mx")
    case True
    then have c: "current_ok mx S (cur @ [s])" by (simp add: current_ok_def)
    from "2.prems"(1) True have r: "add_sentences mx ss chunks (cur @ [s]) = (chunks', cur')"
      by simp
    show ?thesis
      by (rule "2.IH"(1)[OF True r "2.prems"(2) c sub])
  next
    case False
    have c: "current_ok mx S [s]" using s by (simp add: current_ok_def)
    have f: "chunk_ok mx S (strip (join '' '' cur))"
      by (rule flush_ok[OF "2.prems"(3)])
    have k: "\<forall>c\<in>set (chunks @ [strip (join '' '' cur)]). chunk_ok mx S c"
      using "2.prems"(2) f by simp
    from "2.prems"(1) False
    have r: "add_sentences mx ss (chunks @ [strip (join '' '' cur)]) [s] = (chunks', cur')"
      by simp
    show ?thesis
      by (rule "2.IH"(2)[OF False r k c sub])
  qed
qed

lemma add_paragraphs_ok:
  "\<forall>c\<in>set chunks. chunk_ok mx S c \<Longrightarrow> (\<forall>p\<in>set ps. set (sentences_of p) \<subseteq> S) \<Longrightarrow>
   \<forall>c\<in>set (add_paragraphs mx ps chunks). chunk_ok mx S c"
proof (induction mx ps chunks rule: add_paragraphs.induct)
  case (1 mx chunks)
  then show ?case by simp
next
  case (2 mx para ps chunks)
  obtain chunks' cur' where r: "add_sentences mx (sentences_of para) chunks [] = (chunks', cur')"
    by (cases "add_sentences mx (sentences_of para) chunks []")
  have sub: "set (sentences_of para) \<subseteq> S" using "2.prems"(2) by simp
  have rest: "\<forall>p\<in>set ps. set (sentences_of p) \<subseteq> S" using "2.prems"(2) by simp
  have e: "current_ok mx S []" by (simp add: current_ok_def)
  from add_sentences_ok[OF r "2.prems"(1) e sub]
  have ok: "\<forall>c\<in>set chunks'. chunk_ok mx S c" and cur: "current_ok mx S cur'"
    by simp_all
  let ?next = "if cur' \<noteq> [] then chunks' @ [strip (join '' '' cur')] else chunks'"
  have n: "\<forall>c\<in>set ?next. chunk_ok mx S c"
    using ok flush_ok[OF cur] by simp
  have "\<forall>c\<in>set (add_paragraphs mx ps ?next). chunk_ok mx S c"
    by (rule "2.IH"[OF refl r[symmetric] refl n rest])
  then show ?case by (simp add: r Let_def)
qed

text \<open>
  Claim C5. Every chunk that the chunker returns has at most \<open>max_chunk_size\<close> words,
  unless it is one sentence of one paragraph of the text, stripped, that has more words
  than the bound by itself.
\<close>

theorem chunk_sizes:
  "\<forall>c\<in>set (chunk_text_by_sentence_and_paragraph text mx).
     word_count c \<le> mx
     \<or> (\<exists>para\<in>set (paragraphs_of text). \<exists>s\<in>set (sentences_of para). c = strip s \<and> mx < word_count s)"
proof
  fix c assume c: "c \<in> set (chunk_text_by_sentence_and_paragraph text mx)"
  let ?S = "set (all_sentences text)"
  have "\<forall>c\<in>set (add_paragraphs mx (paragraphs_of text) []). chunk_ok mx ?S c"
    by (rule add_paragraphs_ok) (auto simp: all_sentences_def)
  with c have "chunk_ok mx ?S c" "c \<noteq> []"
    by (auto simp: chunk_text_by_sentence_and_paragraph_def Let_def)
  then show "word_count c \<le> mx
     \<or> (\<exists>para\<in>set (paragraphs_of text). \<exists>s\<in>set (sentences_of para). c = strip s \<and> mx < word_count s)"
    by (auto simp: chunk_ok_def all_sentences_def)
qed

section \<open>Properties of the matcher\<close>

lemma steps_refl: "steps P st st"
  by (auto simp: steps_def intro: exI[of _ "[]"])

lemma steps_trans: "steps P a b \<Longrightarrow> steps P b c \<Longrightarrow> steps P a c"
  unfolding steps_def
proof (elim exE conjE)
  fix m n
  assume "list_all P m" "fst b = rev m @ fst a" "fst (snd a) = m @ fst (snd b)"
    "list_all P n" "fst c = rev n @ fst b" "fst (snd b) = n @ fst (snd c)"
  then have "list_all P (m @ n) \<and> fst c = rev (m @ n) @ fst a \<and> fst (snd a) = (m @ n) @ fst (snd c)"
    by simp
  then show "\<exists>m. list_all P m \<and> fst c = rev m @ fst a \<and> fst (snd a) = m @ fst (snd c)" ..
qed

lemma rep_match_steps:
  assumes f: "\<And>st st'. st' \<in> set (f st) \<Longrightarrow> steps P st st'"
  shows "st' \<in> set (rep_match f lo k st) \<Longrightarrow> steps P st st'"
proof (induction k arbitrary: lo st)
  case 0
  then show ?case by (auto simp: steps_refl split: if_splits)
next
  case (Suc k)
  from Suc.prems consider "st' = st" | st1 where "st1 \<in> set (f st)" "st' \<in> set (rep_match f (lo - 1) k st1)"
    by (auto split: if_splits)
  then show ?case
  proof cases
    case 1
    then show ?thesis by (simp add: steps_refl)
  next
    case 2
    then show ?thesis using f Suc.IH steps_trans by blast
  qed
qed

lemma rx_match_steps:
  "only P r \<Longrightarrow> st' \<in> set (rx_match r st) \<Longrightarrow> steps P st st'"
proof (induction r arbitrary: st st')
  case (Chr Q)
  then show ?case
    by (cases st) (auto simp: steps_def split: list.splits if_splits intro: exI[of _ "[x]" for x])
next
  case (Seq a b)
  from Seq.prems(2) obtain st1 where 1: "st1 \<in> set (rx_match a st)" and 2: "st' \<in> set (rx_match b st1)"
    by auto
  from Seq.prems(1) have "only P a" "only P b" by simp_all
  then have "steps P st st1" "steps P st1 st'"
    using Seq.IH 1 2 by blast+
  then show ?case by (rule steps_trans)
next
  case (Alt a b)
  from Alt.prems(2) have "st' \<in> set (rx_match a st) \<or> st' \<in> set (rx_match b st)" by simp
  moreover from Alt.prems(1) have "only P a" "only P b" by simp_all
  ultimately show ?case using Alt.IH by blast
next
  case (Rep r lo hi)
  from Rep.prems(1) have o: "only P r" by simp
  from Rep.prems(2) show ?case
    unfolding rx_match.simps
    by (rule rep_match_steps[rotated]) (rule Rep.IH[OF o])
next
  case (Grp n r)
  from Grp.prems obtain pre' rest' gs' where
    m: "(pre', rest', gs') \<in> set (rx_match r st)" and
    st': "st' = (pre', rest', (n, rev (take (length pre' - length (fst st)) pre')) # gs')"
    by auto
  from Grp.IH[OF _ m] Grp.prems(1) have "steps P st (pre', rest', gs')" by simp
  then show ?case by (simp add: steps_def st')
next
  case WordB
  then show ?case by (cases st) (auto simp: steps_refl split: if_splits)
next
  case (Behind Q)
  then show ?case by (cases st) (auto simp: steps_refl split: if_splits list.splits)
next
  case Eps
  then show ?case by (simp add: steps_refl)
qed

lemma only_True: "only (\<lambda>_. True) r"
  by (induction r) auto

lemma rx_match_advances: "st' \<in> set (rx_match r st) \<Longrightarrow> steps (\<lambda>_. True) st st'"
  by (rule rx_match_steps[OF only_True])

lemma steps_length: "steps P st st' \<Longrightarrow> length (fst (snd st')) \<le> length (fst (snd st))"
  by (auto simp: steps_def)

lemma rx_match_consuming:
  "consuming r \<Longrightarrow> st' \<in> set (rx_match r st) \<Longrightarrow> length (fst (snd st')) < length (fst (snd st))"
proof (induction r arbitrary: st st')
  case (Chr Q)
  then show ?case by (cases st) (auto split: list.splits if_splits)
next
  case (Seq a b)
  from Seq.prems(2) obtain st1 where 1: "st1 \<in> set (rx_match a st)" and 2: "st' \<in> set (rx_match b st1)"
    by auto
  have la: "length (fst (snd st1)) \<le> length (fst (snd st))"
    using rx_match_advances[OF 1] by (rule steps_length)
  have lb: "length (fst (snd st')) \<le> length (fst (snd st1))"
    using rx_match_advances[OF 2] by (rule steps_length)
  from Seq.prems(1) have "consuming a \<or> consuming b" by simp
  then show ?case
  proof
    assume "consuming a"
    from Seq.IH(1)[OF this 1] lb show ?thesis by simp
  next
    assume "consuming b"
    from Seq.IH(2)[OF this 2] la show ?thesis by simp
  qed
next
  case (Alt a b)
  from Alt.prems(2) have "st' \<in> set (rx_match a st) \<or> st' \<in> set (rx_match b st)" by simp
  moreover from Alt.prems(1) have "consuming a" "consuming b" by simp_all
  ultimately show ?case using Alt.IH by blast
next
  case (Rep r lo hi)
  let ?k = "case hi of Some h \<Rightarrow> h | None \<Rightarrow> length (fst (snd st))"
  from Rep.prems have lo: "0 < lo" and c: "consuming r" and m: "st' \<in> set (rep_match (rx_match r) lo ?k st)"
    by simp_all
  show ?case
  proof (cases ?k)
    case 0
    with m lo show ?thesis by simp
  next
    case (Suc k)
    with m lo obtain st1 where 1: "st1 \<in> set (rx_match r st)"
      and 2: "st' \<in> set (rep_match (rx_match r) (lo - 1) k st1)"
      by auto
    have "steps (\<lambda>_. True) st1 st'"
      using 2 by (rule rep_match_steps[rotated]) (rule rx_match_advances)
    then have "length (fst (snd st')) \<le> length (fst (snd st1))" by (rule steps_length)
    with Rep.IH[OF c 1] show ?thesis by simp
  qed
next
  case (Grp n r)
  from Grp.prems obtain pre' rest' gs' where
    m: "(pre', rest', gs') \<in> set (rx_match r st)" and
    st': "st' = (pre', rest', (n, rev (take (length pre' - length (fst st)) pre')) # gs')"
    by auto
  from Grp.prems(1) have "consuming r" by simp
  from Grp.IH[OF this m] show ?case by (simp add: st')
qed simp_all

lemma rep_match_groups:
  assumes f: "\<And>st st'. st' \<in> set (f st) \<Longrightarrow> snd (snd st') = snd (snd st)"
  shows "st' \<in> set (rep_match f lo k st) \<Longrightarrow> snd (snd st') = snd (snd st)"
proof (induction k arbitrary: lo st)
  case 0
  then show ?case by (auto split: if_splits)
next
  case (Suc k)
  from Suc.prems consider "st' = st" | st1 where "st1 \<in> set (f st)" "st' \<in> set (rep_match f (lo - 1) k st1)"
    by (auto split: if_splits)
  then show ?case
  proof cases
    case 1
    then show ?thesis by simp
  next
    case 2
    then show ?thesis using f Suc.IH by metis
  qed
qed

lemma rx_match_group_free:
  "group_free r \<Longrightarrow> st' \<in> set (rx_match r st) \<Longrightarrow> snd (snd st') = snd (snd st)"
proof (induction r arbitrary: st st')
  case (Chr Q)
  then show ?case by (cases st) (auto split: list.splits if_splits)
next
  case (Seq a b)
  from Seq.prems(2) obtain st1 where 1: "st1 \<in> set (rx_match a st)" and 2: "st' \<in> set (rx_match b st1)"
    by auto
  from Seq.prems(1) have "group_free a" "group_free b" by simp_all
  then have "snd (snd st1) = snd (snd st)" "snd (snd st') = snd (snd st1)"
    using Seq.IH 1 2 by blast+
  then show ?case by simp
next
  case (Alt a b)
  from Alt.prems(2) have "st' \<in> set (rx_match a st) \<or> st' \<in> set (rx_match b st)" by simp
  moreover from Alt.prems(1) have "group_free a" "group_free b" by simp_all
  ultimately show ?case using Alt.IH by blast
next
  case (Rep r lo hi)
  from Rep.prems(1) have o: "group_free r" by simp
  from Rep.prems(2) show ?case
    unfolding rx_match.simps
    by (rule rep_match_groups[rotated]) (rule Rep.IH[OF o])
next
  case (Grp n r)
  then show ?case by simp
next
  case WordB
  then show ?case by (cases st) (auto split: if_splits)
next
  case (Behind Q)
  then show ?case by (cases st) (auto split: if_splits list.splits)
next
  case Eps
  then show ?case by simp
qed

lemma steps_eaten:
  assumes "steps P (pre, rest, gs) (pre', rest', gs')"
  shows "rev (take (length pre' - length pre) pre') = take (length rest - length rest') rest"
    and "rest = take (length rest - length rest') rest @ rest'"
    and "list_all P (take (length rest - length rest') rest)"
proof -
  from assms obtain m where m: "list_all P m" "pre' = rev m @ pre" "rest = m @ rest'"
    by (auto simp: steps_def)
  then show "rev (take (length pre' - length pre) pre') = take (length rest - length rest') rest"
    "rest = take (length rest - length rest') rest @ rest'"
    "list_all P (take (length rest - length rest') rest)"
    by simp_all
qed

lemma pieces_unfold:
  "pieces r pre rest =
     (case rx_match r (pre, rest, []) of
        [] \<Rightarrow> skip_char r pre rest
      | st' # _ \<Rightarrow>
          if length (fst (snd st')) < length rest
          then Hit (take (length rest - length (fst (snd st'))) rest) (snd (snd st'))
                 # pieces r (fst st') (fst (snd st'))
          else Hit [] (snd (snd st')) # skip_char r pre rest)"
proof (cases "rx_match r (pre, rest, [])")
  case Nil
  then show ?thesis by (subst pieces.simps) (simp add: skip_char_def)
next
  case (Cons st' sts)
  obtain pre' rest' gs' where st': "st' = (pre', rest', gs')" by (cases st')
  have "st' \<in> set (rx_match r (pre, rest, []))" using Cons by simp
  then have "steps (\<lambda>_. True) (pre, rest, []) (pre', rest', gs')"
    unfolding st' by (rule rx_match_advances)
  note e = steps_eaten(1)[OF this]
  show ?thesis
    by (subst pieces.simps) (simp add: Cons st' skip_char_def e split: list.splits)
qed

lemma pieces_text: "concat (map piece_text (pieces r pre rest)) = rest"
proof (induction rest arbitrary: pre rule: length_induct)
  case (1 rest)
  have skip: "concat (map piece_text (skip_char r pre rest)) = rest"
    using 1 by (auto simp: skip_char_def split: list.splits)
  show ?case
  proof (cases "rx_match r (pre, rest, [])")
    case Nil
    then show ?thesis by (subst pieces_unfold) (simp add: skip)
  next
    case (Cons st' sts)
    obtain pre' rest' gs' where st': "st' = (pre', rest', gs')" by (cases st')
    have "st' \<in> set (rx_match r (pre, rest, []))" using Cons by simp
    then have "steps (\<lambda>_. True) (pre, rest, []) (pre', rest', gs')"
      unfolding st' by (rule rx_match_advances)
    note e = steps_eaten(2)[OF this]
    show ?thesis
    proof (cases "length rest' < length rest")
      case True
      with 1 have "concat (map piece_text (pieces r pre' rest')) = rest'" by simp
      with True e show ?thesis
        by (subst pieces_unfold) (simp add: Cons st')
    next
      case False
      then show ?thesis
        by (subst pieces_unfold) (simp add: Cons st' skip)
    qed
  qed
qed

text \<open>Every recorded match is the head of the matcher's list at some position.\<close>

lemma pieces_hits:
  "Hit m gs \<in> set (pieces r pre rest) \<Longrightarrow>
   \<exists>pre0 rest0 pre' rest'.
      (pre', rest', gs) \<in> set (rx_match r (pre0, rest0, [])) \<and> rest0 = m @ rest'"
proof (induction rest arbitrary: pre rule: length_induct)
  case (1 rest)
  have skip: "\<exists>pre0 rest0 pre' rest'.
      (pre', rest', gs) \<in> set (rx_match r (pre0, rest0, [])) \<and> rest0 = m @ rest'"
    if "Hit m gs \<in> set (skip_char r pre rest)"
    using that 1 by (auto simp: skip_char_def split: list.splits)
  show ?case
  proof (cases "rx_match r (pre, rest, [])")
    case Nil
    with "1.prems" have "Hit m gs \<in> set (skip_char r pre rest)"
      by (subst (asm) pieces_unfold) simp
    then show ?thesis by (rule skip)
  next
    case (Cons st' sts)
    obtain pre' rest' gs' where st': "st' = (pre', rest', gs')" by (cases st')
    have mem: "(pre', rest', gs') \<in> set (rx_match r (pre, rest, []))" using Cons st' by simp
    then have "steps (\<lambda>_. True) (pre, rest, []) (pre', rest', gs')"
      by (rule rx_match_advances)
    note e = steps_eaten(2)[OF this]
    show ?thesis
    proof (cases "length rest' < length rest")
      case True
      with "1.prems" have "(m = take (length rest - length rest') rest \<and> gs = gs')
          \<or> Hit m gs \<in> set (pieces r pre' rest')"
        by (subst (asm) pieces_unfold) (simp add: Cons st')
      then show ?thesis
      proof
        assume "m = take (length rest - length rest') rest \<and> gs = gs'"
        with mem e show ?thesis by blast
      next
        assume "Hit m gs \<in> set (pieces r pre' rest')"
        with 1 True show ?thesis by blast
      qed
    next
      case False
      with e have r: "rest' = rest" by simp
      from False "1.prems" have "(m = [] \<and> gs = gs') \<or> Hit m gs \<in> set (skip_char r pre rest)"
        by (subst (asm) pieces_unfold) (simp add: Cons st')
      then show ?thesis
      proof
        assume "m = [] \<and> gs = gs'"
        with mem r show ?thesis by auto
      next
        assume "Hit m gs \<in> set (skip_char r pre rest)"
        then show ?thesis by (rule skip)
      qed
    qed
  qed
qed

lemma hit_only:
  assumes "only P r" "Hit m gs \<in> set (pieces r pre rest)"
  shows "list_all P m"
proof -
  from pieces_hits[OF assms(2)] obtain pre0 rest0 pre' rest' where
    m: "(pre', rest', gs) \<in> set (rx_match r (pre0, rest0, []))" and r: "rest0 = m @ rest'"
    by blast
  from rx_match_steps[OF assms(1) m] have "list_all P (take (length rest0 - length rest') rest0)"
    by (rule steps_eaten(3))
  then show ?thesis by (simp add: r)
qed

lemma hit_consuming:
  assumes "consuming r" "Hit m gs \<in> set (pieces r pre rest)"
  shows "m \<noteq> []"
proof -
  from pieces_hits[OF assms(2)] obtain pre0 rest0 pre' rest' where
    m: "(pre', rest', gs) \<in> set (rx_match r (pre0, rest0, []))" and r: "rest0 = m @ rest'"
    by blast
  from rx_match_consuming[OF assms(1) m] show ?thesis by (auto simp: r)
qed

subsection \<open>Splitting at white space keeps the words\<close>

lemma split_ws_blank_prefix: "list_all is_space m \<Longrightarrow> split_ws (m @ b) = split_ws b"
  by (induction m) (simp_all add: split_ws_space_Cons)

lemma split_ws_blank_mid:
  "m \<noteq> [] \<Longrightarrow> list_all is_space m \<Longrightarrow> split_ws (a @ m @ b) = split_ws a @ split_ws b"
  by (cases m) (simp_all add: split_ws_space_mid split_ws_blank_prefix)

lemma split_pieces_words:
  "\<forall>m gs. Hit m gs \<in> set ps \<longrightarrow> m \<noteq> [] \<and> list_all is_space m \<Longrightarrow>
   concat (map split_ws (split_pieces cur ps)) = split_ws (rev cur @ concat (map piece_text ps))"
proof (induction cur ps rule: split_pieces.induct)
  case (1 cur)
  then show ?case by simp
next
  case (2 cur c ps)
  then show ?case by simp
next
  case (3 cur m gs ps)
  from "3.prems" have m: "m \<noteq> []" "list_all is_space m" by auto
  from "3.prems" have "\<forall>m gs. Hit m gs \<in> set ps \<longrightarrow> m \<noteq> [] \<and> list_all is_space m" by auto
  from "3.IH"[OF this]
  have "concat (map split_ws (split_pieces [] ps)) = split_ws (concat (map piece_text ps))"
    by simp
  then show ?case
    by (simp add: split_ws_blank_mid[OF m])
qed

lemma re_split_words:
  assumes "only is_space r" "consuming r"
  shows "concat (map split_ws (re_split r s)) = split_ws s"
proof -
  have "\<forall>m gs. Hit m gs \<in> set (pieces r [] s) \<longrightarrow> m \<noteq> [] \<and> list_all is_space m"
    using hit_only[OF assms(1)] hit_consuming[OF assms(2)] by blast
  then show ?thesis
    unfolding re_split_def by (simp add: split_pieces_words pieces_text)
qed

lemma only_para_sep: "only is_space para_sep" "consuming para_sep"
  by (simp_all add: para_sep_def seq_def ch_def star_def is_space_def code_def)

lemma only_sentence_sep: "only is_space sentence_sep" "consuming sentence_sep"
  by (simp_all add: sentence_sep_def seq_def plus_def)

lemma paragraphs_words: "concat (map split_ws (paragraphs_of text)) = split_ws text"
  by (simp add: paragraphs_of_def re_split_words only_para_sep)

lemma sentences_words: "concat (map split_ws (sentences_of para)) = split_ws para"
  by (simp add: sentences_of_def re_split_words only_sentence_sep)

lemma all_sentences_words: "concat (map split_ws (all_sentences text)) = split_ws text"
proof -
  have "concat (map split_ws (all_sentences text))
      = concat (map (\<lambda>p. concat (map split_ws (sentences_of p))) (paragraphs_of text))"
    by (simp add: all_sentences_def concat_map_concat)
  also have "\<dots> = concat (map split_ws (paragraphs_of text))"
    by (simp add: sentences_words)
  finally show ?thesis by (simp add: paragraphs_words)
qed

section \<open>The chunker on a whole text\<close>



subsection \<open>Chunks are stripped and not blank\<close>

lemma add_sentences_stripped:
  "add_sentences mx ss chunks cur = (chunks', cur') \<Longrightarrow>
   \<forall>c\<in>set chunks. \<exists>x. c = strip x \<Longrightarrow> \<forall>c\<in>set chunks'. \<exists>x. c = strip x"
proof (induction mx ss chunks cur rule: add_sentences.induct)
  case (1 mx chunks cur)
  then show ?case by simp
next
  case (2 mx s ss chunks cur)
  show ?case
  proof (cases "word_count (join '' '' (cur @ [s])) \<le> mx")
    case True
    from "2.prems"(1) True have r: "add_sentences mx ss chunks (cur @ [s]) = (chunks', cur')"
      by simp
    show ?thesis by (rule "2.IH"(1)[OF True r "2.prems"(2)])
  next
    case False
    from "2.prems"(1) False
    have r: "add_sentences mx ss (chunks @ [strip (join '' '' cur)]) [s] = (chunks', cur')"
      by simp
    have k: "\<forall>c\<in>set (chunks @ [strip (join '' '' cur)]). \<exists>x. c = strip x"
      using "2.prems"(2) by auto
    show ?thesis by (rule "2.IH"(2)[OF False r k])
  qed
qed

lemma add_paragraphs_stripped:
  "\<forall>c\<in>set chunks. \<exists>x. c = strip x \<Longrightarrow>
   \<forall>c\<in>set (add_paragraphs mx ps chunks). \<exists>x. c = strip x"
proof (induction mx ps chunks rule: add_paragraphs.induct)
  case (1 mx chunks)
  then show ?case by simp
next
  case (2 mx para ps chunks)
  obtain chunks' cur' where r: "add_sentences mx (sentences_of para) chunks [] = (chunks', cur')"
    by (cases "add_sentences mx (sentences_of para) chunks []")
  from add_sentences_stripped[OF r "2.prems"]
  have ok: "\<forall>c\<in>set chunks'. \<exists>x. c = strip x" .
  let ?next = "if cur' \<noteq> [] then chunks' @ [strip (join '' '' cur')] else chunks'"
  have n: "\<forall>c\<in>set ?next. \<exists>x. c = strip x"
    using ok by auto
  have "\<forall>c\<in>set (add_paragraphs mx ps ?next). \<exists>x. c = strip x"
    by (rule "2.IH"[OF refl r[symmetric] refl n])
  then show ?case by (simp add: r Let_def)
qed

lemma chunks_not_blank:
  assumes "c \<in> set (chunk_text_by_sentence_and_paragraph text mx)"
  shows "c \<noteq> [] \<and> \<not> list_all is_space c"
proof -
  have "\<forall>c\<in>set (add_paragraphs mx (paragraphs_of text) []). \<exists>x. c = strip x"
    by (rule add_paragraphs_stripped) simp
  with assms obtain x where "c = strip x" "c \<noteq> []"
    by (auto simp: chunk_text_by_sentence_and_paragraph_def Let_def)
  then show ?thesis using strip_not_blank by auto
qed

text \<open>
  Claim C4. Joined by single spaces, the chunks hold exactly the words of the sentences
  that splitting the text into paragraphs and sentences gives, in the same order, and
  these are the words of the text itself: nothing but white space is lost or added. No
  chunk is empty or made of white space only.
\<close>

theorem chunks_lossless_and_not_blank:
  "split_ws (join '' '' (chunk_text_by_sentence_and_paragraph text mx))
     = concat (map split_ws (all_sentences text))
   \<and> concat (map split_ws (all_sentences text)) = split_ws text
   \<and> (\<forall>c\<in>set (chunk_text_by_sentence_and_paragraph text mx). c \<noteq> [] \<and> \<not> list_all is_space c)"
  using chunks_words all_sentences_words chunks_not_blank by blast

lemma chunk_two_sentences:
  "chunk_text_by_sentence_and_paragraph two_sentences 2 = [''One two three.'', ''Four.'']"
  by code_simp

lemma split_ws_two_sentences: "split_ws two_sentences = [''One'', ''two'', ''three.'', ''Four.'']"
  by code_simp

theorem chunks_lossless_and_not_blank_witness:
  "chunk_text_by_sentence_and_paragraph two_sentences 2 = [''One two three.'', ''Four.'']
   \<and> split_ws (join '' '' [''One two three.'', ''Four.'']) = [''One'', ''two'', ''three.'', ''Four.'']
   \<and> split_ws two_sentences = [''One'', ''two'', ''three.'', ''Four.'']
   \<and> \<not> list_all is_space ''Four.''"
  using chunks_lossless_and_not_blank[of two_sentences 2]
  by (simp add: chunk_two_sentences split_ws_two_sentences)

theorem chunk_sizes_witness:
  "chunk_text_by_sentence_and_paragraph two_sentences 2 = [''One two three.'', ''Four.'']
   \<and> word_count ''Four.'' = 1
   \<and> word_count ''One two three.'' = 3
   \<and> (\<exists>para\<in>set (paragraphs_of two_sentences). \<exists>s\<in>set (sentences_of para).
         ''One two three.'' = strip s \<and> 2 < word_count s)"
proof -
  have w: "word_count ''Four.'' = 1" "word_count ''One two three.'' = 3"
    by code_simp+
  from chunk_sizes[of two_sentences 2] show ?thesis
    by (simp add: chunk_two_sentences w)
qed


section \<open>Properties of the indicator extraction\<close>

lemma in_rx_match_Seq:
  "st' \<in> set (rx_match (Seq a b) st) \<longleftrightarrow> (\<exists>st1\<in>set (rx_match a st). st' \<in> set (rx_match b st1))"
  by auto

lemma ports_rx_group:
  assumes "st' \<in> set (rx_match ports_rx st)"
  shows "\<exists>d. group (snd (snd st')) 1 = Some d \<and> d \<noteq> [] \<and> list_all is_digit d"
proof -
  let ?D = "Rep (Chr is_digit) 1 (Some 5)"
  let ?head = "Seq WordB (Seq (lit_i ''port'') (opt (Chr is_space)))"
  from assms have "st' \<in> set (rx_match (Seq WordB (Seq (lit_i ''port'')
      (Seq (opt (Chr is_space)) (Seq (Grp 1 ?D) (Seq WordB Eps))))) st)"
    by (simp only: ports_rx_def seq_def foldr.simps comp_apply id_apply)
  then obtain st3 st4 where
    4: "st4 \<in> set (rx_match (Grp 1 ?D) st3)" and 5: "st' \<in> set (rx_match (Seq WordB Eps) st4)"
    unfolding in_rx_match_Seq[of _ _ "Seq _ _"] by blast
  from 4 obtain p4 r4 g4 where
    d: "(p4, r4, g4) \<in> set (rx_match ?D st3)" and
    st4: "st4 = (p4, r4, (1, rev (take (length p4 - length (fst st3)) p4)) # g4)"
    by auto
  obtain p3 r3 g3 where st3: "st3 = (p3, r3, g3)" by (cases st3)
  have "only is_digit ?D" by simp
  from rx_match_steps[OF this d] have s: "steps is_digit (p3, r3, g3) (p4, r4, g4)"
    by (simp add: st3)
  have "consuming ?D" by simp
  from rx_match_consuming[OF this d] have l: "length r4 < length r3"
    by (simp add: st3)
  let ?d = "take (length r3 - length r4) r3"
  have e: "rev (take (length p4 - length p3) p4) = ?d" "list_all is_digit ?d"
    using steps_eaten[OF s] by simp_all
  have ne: "?d \<noteq> []"
    using l by (cases r3) auto
  have "group_free (Seq WordB Eps)" by simp
  from rx_match_group_free[OF this 5] have "snd (snd st') = (1, ?d) # g4"
    by (simp add: st4 st3 e)
  then have "group (snd (snd st')) 1 = Some ?d"
    by (simp add: group_def)
  with e ne show ?thesis by blast
qed

lemma finditer_hits:
  "gs \<in> set (finditer r s) \<Longrightarrow> \<exists>m. Hit m gs \<in> set (pieces r [] s)"
  by (auto simp: finditer_def split: piece.splits)

lemma finditer_ports:
  assumes "gs \<in> set (finditer ports_rx s)"
  shows "\<exists>d. group gs 1 = Some d \<and> d \<noteq> [] \<and> list_all is_digit d"
proof -
  from finditer_hits[OF assms] obtain m where "Hit m gs \<in> set (pieces ports_rx [] s)" ..
  from pieces_hits[OF this] obtain pre0 rest0 pre' rest' where
    "(pre', rest', gs) \<in> set (rx_match ports_rx (pre0, rest0, []))" by blast
  from ports_rx_group[OF this] show ?thesis by simp
qed

lemma port_values_total:
  "\<forall>v\<in>set vals. \<exists>d. v = Some d \<and> d \<noteq> [] \<and> list_all is_digit d \<Longrightarrow>
   \<exists>ps. port_values vals = Inr ps \<and> (\<forall>p\<in>set ps. is_port p)"
proof (induction vals)
  case Nil
  then show ?case by simp
next
  case (Cons v vals)
  then obtain ps where ps: "port_values vals = Inr ps" "\<forall>p\<in>set ps. is_port p" by auto
  from Cons.prems obtain d where d: "v = Some d" "d \<noteq> []" "list_all is_digit d" by auto
  then obtain n where n: "int_of_str v = Inr n" by (simp add: int_of_str_def)
  have "is_port (str_of_int n)" if "0 < n" "n \<le> 65535"
    using that unfolding is_port_def by (intro exI[of _ n]) simp
  then show ?case
    using ps n by simp
qed

lemma ports_total:
  "\<exists>ps. port_values (map (\<lambda>gs. group gs 1) (finditer ports_rx t)) = Inr ps \<and> (\<forall>p\<in>set ps. is_port p)"
  by (rule port_values_total) (auto dest: finditer_ports)

lemma extract_iocs_eq:
  assumes "port_values (map (\<lambda>gs. group gs 1) (finditer ports_rx (deobfuscate raw))) = Inr ps"
  shows "extract_iocs sl raw = Inr (indicator_lists sl (deobfuscate raw) ps)"
  unfolding extract_iocs_def Let_def IOC_PATTERNS_def
  by (simp add: ioc_values_def assms[simplified] getitem_def indicator_lists_def Let_def)

end
